theory Spec2Isabelle
  imports Main
begin

section \<open>Python string conversions used by the hasher\<close>

text \<open>
  An f-string renders an \<open>int\<close> as its decimal numeral, with a leading minus sign for a
  negative number. \<open>str_nat\<close> writes the digits of a natural number, most significant
  first; \<open>str_int\<close> adds the sign.
\<close>

definition digit_char :: "nat \<Rightarrow> char" where
  "digit_char n = ''0123456789'' ! n"

fun str_nat :: "nat \<Rightarrow> string" where
  "str_nat n = (if n < 10 then [digit_char n] else str_nat (n div 10) @ [digit_char (n mod 10)])"

declare str_nat.simps [simp del]

definition str_int :: "int \<Rightarrow> string" where
  "str_int i = (if i < 0 then CHR ''-'' # str_nat (nat (- i)) else str_nat (nat i))"

text \<open>Left padding with zeros to a minimal width, as \<open>%04d\<close> and \<open>%02d\<close> do.\<close>

definition zfill :: "nat \<Rightarrow> string \<Rightarrow> string" where
  "zfill w s = replicate (w - length s) (CHR ''0'') @ s"

text \<open>
  \<open>datetime.date\<close> and \<open>datetime.datetime\<close> (a subclass of \<open>date\<close> in Python). An f-string
  renders a date through \<open>date.__str__\<close>, which is \<open>isoformat()\<close>: \<open>YYYY-MM-DD\<close>. The
  timestamp is always rendered with \<open>strftime('%Y-%m-%d %H:%M:%S')\<close>, which drops the
  microseconds. The fields are natural numbers here; Python keeps them in the ranges of
  the calendar, and for a year below 1000 the platform decides whether \<open>%Y\<close> pads.
  No property below depends on the ranges or on the form of the timestamp string.
\<close>

record py_date =
  year :: nat
  month :: nat
  day :: nat

record py_datetime = py_date +
  hour :: nat
  minute :: nat
  second :: nat
  microsecond :: nat

definition date_str :: "'a py_date_scheme \<Rightarrow> string" where
  "date_str d = zfill 4 (str_nat (year d)) @ ''-'' @ zfill 2 (str_nat (month d)) @ ''-''
     @ zfill 2 (str_nat (day d))"

definition strftime :: "py_datetime \<Rightarrow> string" where
  "strftime t = zfill 4 (str_nat (year t)) @ ''-'' @ zfill 2 (str_nat (month t)) @ ''-''
     @ zfill 2 (str_nat (day t)) @ '' '' @ zfill 2 (str_nat (hour t)) @ '':''
     @ zfill 2 (str_nat (minute t)) @ '':'' @ zfill 2 (str_nat (second t))"

text \<open>\<open>s.startswith(p)\<close> and \<open>'0' * n\<close> (the empty string for \<open>n \<le> 0\<close>).\<close>

fun startswith :: "string \<Rightarrow> string \<Rightarrow> bool" where
  "startswith s [] = True"
| "startswith [] (p # ps) = False"
| "startswith (c # cs) (p # ps) = (c = p \<and> startswith cs ps)"

definition zeros :: "int \<Rightarrow> string" where
  "zeros n = replicate (nat n) (CHR ''0'')"

section \<open>The hasher and the miner (app.py)\<close>

text \<open>
  \<open>hashlib.sha256(...).hexdigest()\<close> belongs to the Python standard library, not to the
  repository. The digest is a parameter \<open>sha256 :: string \<Rightarrow> string\<close> of every function
  that reaches it: it stands for the composition of \<open>encode()\<close>, \<open>sha256\<close> and
  \<open>hexdigest()\<close>, from the string that is hashed to the hexadecimal string returned.
  A theorem stated for an arbitrary digest holds for SHA-256 in particular.
\<close>

type_synonym digest = "string \<Rightarrow> string"

definition DIFFICULTY :: int where
  "DIFFICULTY = 3"

definition MAX_NONCE :: int where
  "MAX_NONCE = 1000000"

text \<open>The f-string of \<open>calculate_hash\<close>: the six fields, concatenated with no delimiter.\<close>

definition block_data :: "int \<Rightarrow> string \<Rightarrow> string \<Rightarrow> string \<Rightarrow> int \<Rightarrow> int \<Rightarrow> string" where
  "block_data bn ts ph data n d = str_int bn @ ts @ ph @ data @ str_int n @ str_int d"

definition calculate_hash ::
  "digest \<Rightarrow> int \<Rightarrow> string \<Rightarrow> string \<Rightarrow> string \<Rightarrow> int \<Rightarrow> int \<Rightarrow> string" where
  "calculate_hash sha256 bn ts ph data n d = sha256 (block_data bn ts ph data n d)"

text \<open>
  The \<open>while\<close> loop of \<open>mine_block\<close>, entered with the current \<open>nonce\<close>. It leaves
  either by the \<open>return\<close> inside the loop, or by the \<open>return\<close> after it, which
  computes one more digest for the nonce the loop stopped at.
\<close>

function mine_loop ::
  "digest \<Rightarrow> int \<Rightarrow> string \<Rightarrow> string \<Rightarrow> string \<Rightarrow> int \<Rightarrow> string \<Rightarrow> int \<Rightarrow> string \<times> int" where
  "mine_loop sha256 bn ts ph data d target n =
     (if n < MAX_NONCE then
        (let hash_result = calculate_hash sha256 bn ts ph data n d in
         if startswith hash_result target then (hash_result, n)
         else mine_loop sha256 bn ts ph data d target (n + 1))
      else (calculate_hash sha256 bn ts ph data n d, n))"
  by pat_completeness auto
termination
  by (relation "measure (\<lambda>(sha256, bn, ts, ph, data, d, target, n). nat (MAX_NONCE - n))") auto

declare mine_loop.simps [simp del]

definition mine_block ::
  "digest \<Rightarrow> int \<Rightarrow> string \<Rightarrow> string \<Rightarrow> string \<Rightarrow> int \<Rightarrow> string \<times> int" where
  "mine_block sha256 bn ts ph data d = mine_loop sha256 bn ts ph data d (zeros d) 0"

text \<open>
  The attempts of the search, in order: every pair of a digest and its nonce that the
  loop body computed and tested against the target. The digest of the \<open>return\<close> after
  the loop is not among them: it is never tested.
\<close>

function mine_attempts ::
  "digest \<Rightarrow> int \<Rightarrow> string \<Rightarrow> string \<Rightarrow> string \<Rightarrow> int \<Rightarrow> string \<Rightarrow> int \<Rightarrow> (string \<times> int) list" where
  "mine_attempts sha256 bn ts ph data d target n =
     (if n < MAX_NONCE then
        (let hash_result = calculate_hash sha256 bn ts ph data n d in
         if startswith hash_result target then [(hash_result, n)]
         else (hash_result, n) # mine_attempts sha256 bn ts ph data d target (n + 1))
      else [])"
  by pat_completeness auto
termination
  by (relation "measure (\<lambda>(sha256, bn, ts, ph, data, d, target, n). nat (MAX_NONCE - n))") auto

declare mine_attempts.simps [simp del]

text \<open>
  Every digest that \<open>mine_block\<close> computes, in order, each with its nonce: those of the
  loop body and, when the loop runs out, the one of the \<open>return\<close> after it.
\<close>

function mine_computed ::
  "digest \<Rightarrow> int \<Rightarrow> string \<Rightarrow> string \<Rightarrow> string \<Rightarrow> int \<Rightarrow> string \<Rightarrow> int \<Rightarrow> (string \<times> int) list" where
  "mine_computed sha256 bn ts ph data d target n =
     (if n < MAX_NONCE then
        (let hash_result = calculate_hash sha256 bn ts ph data n d in
         if startswith hash_result target then [(hash_result, n)]
         else (hash_result, n) # mine_computed sha256 bn ts ph data d target (n + 1))
      else [(calculate_hash sha256 bn ts ph data n d, n)])"
  by pat_completeness auto
termination
  by (relation "measure (\<lambda>(sha256, bn, ts, ph, data, d, target, n). nat (MAX_NONCE - n))") auto

declare mine_computed.simps [simp del]

section \<open>The block record and the table of blocks\<close>

text \<open>
  A row of the table \<open>study_session\<close>. The primary key \<open>id\<close> is written \<open>id'\<close> here.
  The table is the list of its rows in insertion order; it holds the blocks of all users.
\<close>

record study_session =
  id' :: int
  user_id :: int
  date :: py_date
  subject :: string
  duration :: int
  status :: string
  block_number :: int
  timestamp :: py_datetime
  hash :: string
  prev_hash :: string
  nonce :: int
  difficulty :: int

type_synonym db = "study_session list"

text \<open>
  \<open>StudySession.query.filter_by(user_id=user_id).order_by(StudySession.block_number).all()\<close>
  and the same query in descending order with \<open>.first()\<close>. Rows with equal block
  numbers keep their insertion order (SQL leaves the order of ties open).
\<close>

definition query_chain :: "db \<Rightarrow> int \<Rightarrow> study_session list" where
  "query_chain table uid = sort_key block_number (filter (\<lambda>s. user_id s = uid) table)"

definition query_last :: "db \<Rightarrow> int \<Rightarrow> study_session option" where
  "query_last table uid =
     (case sort_key (\<lambda>s. - block_number s) (filter (\<lambda>s. user_id s = uid) table) of
        [] \<Rightarrow> None
      | s # rest \<Rightarrow> Some s)"

section \<open>The fail-fast verifier (app.verify_chain)\<close>

text \<open>The payload string \<open>data\<close> and the digest recomputed from a stored block.\<close>

definition session_data :: "study_session \<Rightarrow> string" where
  "session_data s = date_str (date s) @ subject s @ str_int (duration s) @ status s"

definition calculated_hash :: "digest \<Rightarrow> study_session \<Rightarrow> string" where
  "calculated_hash sha256 s =
     calculate_hash sha256 (block_number s) (strftime (timestamp s)) (prev_hash s)
       (session_data s) (nonce s) (difficulty s)"

text \<open>
  One iteration of the \<open>for\<close> loop, at index \<open>i\<close>: the message of the first check that
  fails, or \<open>None\<close> when the block passes its three checks.
\<close>

definition check_block :: "digest \<Rightarrow> study_session list \<Rightarrow> nat \<Rightarrow> string option" where
  "check_block sha256 sessions i =
     (let s = sessions ! i in
      if calculated_hash sha256 s \<noteq> hash s then
        Some (''Block '' @ str_int (block_number s) @ '' has invalid hash'')
      else if i > 0 \<and> prev_hash s \<noteq> hash (sessions ! (i - 1)) then
        Some (''Block '' @ str_int (block_number s) @ '' has broken chain link'')
      else if \<not> startswith (hash s) (zeros (difficulty s)) then
        Some (''Block '' @ str_int (block_number s) @ '' doesn't meet difficulty requirement'')
      else None)"

function verify_loop :: "digest \<Rightarrow> study_session list \<Rightarrow> nat \<Rightarrow> bool \<times> string" where
  "verify_loop sha256 sessions i =
     (if i < length sessions then
        (case check_block sha256 sessions i of
           Some message \<Rightarrow> (False, message)
         | None \<Rightarrow> verify_loop sha256 sessions (Suc i))
      else (True, ''Blockchain is valid''))"
  by pat_completeness auto
termination
  by (relation "measure (\<lambda>(sha256, sessions, i). length sessions - i)") auto

declare verify_loop.simps [simp del]

definition verify_blocks :: "digest \<Rightarrow> study_session list \<Rightarrow> bool \<times> string" where
  "verify_blocks sha256 sessions =
     (if sessions = [] then (True, ''No blocks to verify'') else verify_loop sha256 sessions 0)"

definition verify_chain :: "digest \<Rightarrow> db \<Rightarrow> int \<Rightarrow> bool \<times> string" where
  "verify_chain sha256 table uid = verify_blocks sha256 (query_chain table uid)"

section \<open>The batch verifier (blockchain_utils.verify_user_chain)\<close>

text \<open>\<open>blockchain_utils\<close> has its own copy of \<open>calculate_hash\<close>.\<close>

definition utils_calculate_hash ::
  "digest \<Rightarrow> int \<Rightarrow> string \<Rightarrow> string \<Rightarrow> string \<Rightarrow> int \<Rightarrow> int \<Rightarrow> string" where
  "utils_calculate_hash sha256 bn ts ph data n d =
     sha256 (str_int bn @ ts @ ph @ data @ str_int n @ str_int d)"

text \<open>The errors one iteration of its loop appends, in the order it appends them.\<close>

definition block_errors :: "digest \<Rightarrow> study_session list \<Rightarrow> nat \<Rightarrow> string list" where
  "block_errors sha256 sessions i =
     (let s = sessions ! i;
          data = date_str (date s) @ subject s @ str_int (duration s) @ status s;
          calculated = utils_calculate_hash sha256 (block_number s) (strftime (timestamp s))
                         (prev_hash s) data (nonce s) (difficulty s)
      in (if calculated \<noteq> hash s
          then [''Block '' @ str_int (block_number s) @ '': Invalid hash''] else [])
       @ (if i > 0 \<and> prev_hash s \<noteq> hash (sessions ! (i - 1))
          then [''Block '' @ str_int (block_number s) @ '': Broken chain link''] else [])
       @ (if \<not> startswith (hash s) (zeros (difficulty s))
          then [''Block '' @ str_int (block_number s) @ '': Doesn't meet difficulty requirement'']
          else []))"

function collect_errors ::
  "digest \<Rightarrow> study_session list \<Rightarrow> nat \<Rightarrow> string list \<Rightarrow> string list" where
  "collect_errors sha256 sessions i errors =
     (if i < length sessions then
        collect_errors sha256 sessions (Suc i) (errors @ block_errors sha256 sessions i)
      else errors)"
  by pat_completeness auto
termination
  by (relation "measure (\<lambda>(sha256, sessions, i, errors). length sessions - i)") auto

declare collect_errors.simps [simp del]

definition verify_user_blocks ::
  "digest \<Rightarrow> study_session list \<Rightarrow> bool \<times> string \<times> string list" where
  "verify_user_blocks sha256 sessions =
     (if sessions = [] then (True, ''No blocks to verify'', [])
      else
        (let errors = collect_errors sha256 sessions 0 [] in
         if errors \<noteq> [] then
           (False, ''Found '' @ str_int (int (length errors)) @ '' error(s)'', errors)
         else (True, ''Blockchain is valid'', [])))"

definition verify_user_chain :: "digest \<Rightarrow> db \<Rightarrow> int \<Rightarrow> bool \<times> string \<times> string list" where
  "verify_user_chain sha256 table uid = verify_user_blocks sha256 (query_chain table uid)"

section \<open>Appending a block (the POST branch of app.dashboard)\<close>

text \<open>
  The handler reads the tail of the user's chain, mines the new block and commits it.
  The three steps are separate definitions, so that the order in which two requests
  take them can be written down.

  \<open>chain_tail\<close>: the previous hash and the next block number the handler computes
  from the tail it reads; the sentinel of 64 zeros and number 1 on an empty chain.
\<close>

definition chain_tail :: "db \<Rightarrow> int \<Rightarrow> string \<times> int" where
  "chain_tail table uid =
     (case query_last table uid of
        None \<Rightarrow> (replicate 64 (CHR ''0''), 1)
      | Some prev_session \<Rightarrow> (hash prev_session, block_number prev_session + 1))"

text \<open>
  \<open>new_session\<close>: the row built from the form values, the time \<open>now\<close> that
  \<open>datetime.utcnow()\<close> returned and the tail read before. Its \<open>id'\<close> is assigned at
  commit.
\<close>

definition new_session ::
  "digest \<Rightarrow> py_datetime \<Rightarrow> int \<Rightarrow> py_date \<Rightarrow> string \<Rightarrow> int \<Rightarrow> string \<Rightarrow> string \<times> int
     \<Rightarrow> study_session" where
  "new_session sha256 now uid d subj dur st tail =
     (let data = date_str d @ subj @ str_int dur @ st;
          mined = mine_block sha256 (snd tail) (strftime now) (fst tail) data DIFFICULTY
      in \<lparr> id' = 0, user_id = uid, date = d, subject = subj, duration = dur, status = st,
           block_number = snd tail, timestamp = now, hash = fst mined, prev_hash = fst tail,
           nonce = snd mined, difficulty = DIFFICULTY \<rparr>)"

text \<open>
  \<open>db.session.add\<close> and \<open>commit\<close>: the row is appended with a fresh primary key, one
  more than the largest key of the table. The table has no uniqueness constraint on
  the pair of user and block number, so a commit never fails on the row's contents.
\<close>

definition next_id :: "db \<Rightarrow> int" where
  "next_id table = fold max (map id' table) 0 + 1"

definition commit :: "db \<Rightarrow> study_session \<Rightarrow> db" where
  "commit table s = table @ [s\<lparr>id' := next_id table\<rparr>]"

definition add_session ::
  "digest \<Rightarrow> py_datetime \<Rightarrow> int \<Rightarrow> py_date \<Rightarrow> string \<Rightarrow> int \<Rightarrow> string \<Rightarrow> db \<Rightarrow> db" where
  "add_session sha256 now uid d subj dur st table =
     commit table (new_session sha256 now uid d subj dur st (chain_tail table uid))"

text \<open>
  \<open>add_session\<close> is the handler from the query of line 271 to the commit of line 305,
  for a request that passed the validation in front of it (a subject that is not empty
  once stripped, a positive duration, already converted to minutes) and whose commit
  succeeds. A request that is refused, and a commit that raises and is rolled back,
  leave the table as it was; they are not modelled.
\<close>

text \<open>A sequence of appends for one user, each with its own time and form values.\<close>

type_synonym append_request = "py_datetime \<times> py_date \<times> string \<times> int \<times> string"

fun add_sessions :: "digest \<Rightarrow> int \<Rightarrow> append_request list \<Rightarrow> db \<Rightarrow> db" where
  "add_sessions sha256 uid [] table = table"
| "add_sessions sha256 uid ((now, d, subj, dur, st) # rest) table =
     add_sessions sha256 uid rest (add_session sha256 now uid d subj dur st table)"

section \<open>Deleting a block (app.delete_session)\<close>

text \<open>
  The handler gets the logged-in user of the Flask session, if any, and the id of the
  row. It returns the table, the messages it flashes (text and category) and the
  endpoint it redirects to. The warning sign in front of the message text is left out
  of the string.
\<close>

definition delete_warning :: string where
  "delete_warning = ''Warning: Deleting blocks from a blockchain breaks the chain integrity!''"

definition delete_session ::
  "int option \<Rightarrow> int \<Rightarrow> db \<Rightarrow> db \<times> (string \<times> string) list \<times> string" where
  "delete_session logged_in session_id table =
     (case logged_in of
        None \<Rightarrow> (table, [], ''login'')
      | Some uid \<Rightarrow> (table, [(delete_warning, ''error'')], ''dashboard''))"

section \<open>Vocabulary of the properties\<close>

text \<open>The number of zero characters a string starts with.\<close>

definition leading_zeros :: "string \<Rightarrow> nat" where
  "leading_zeros h = length (takeWhile (\<lambda>c. c = CHR ''0'') h)"

text \<open>
  The search of \<open>mine_block\<close> failed: none of the attempts it made found a digest that
  starts with the target.
\<close>

definition search_failed :: "digest \<Rightarrow> int \<Rightarrow> string \<Rightarrow> string \<Rightarrow> string \<Rightarrow> int \<Rightarrow> bool" where
  "search_failed sha256 bn ts ph data d =
     list_all (\<lambda>a. \<not> startswith (fst a) (zeros d)) (mine_attempts sha256 bn ts ph data d (zeros d) 0)"

text \<open>
  Mining succeeds on a block when some nonce below the ceiling gives a digest that
  starts with the target. This is a property of the digest function on the fields of
  the block. For SHA-256 and the difficulty 3 of the application, one nonce misses
  with probability 4095/4096, and all 1,000,000 miss with a probability of about one
  in ten to the power 106.
\<close>

definition mining_succeeds :: "digest \<Rightarrow> int \<Rightarrow> string \<Rightarrow> string \<Rightarrow> string \<Rightarrow> int \<Rightarrow> bool" where
  "mining_succeeds sha256 bn ts ph data d =
     list_ex (\<lambda>k. startswith (calculate_hash sha256 bn ts ph data k d) (zeros d)) [0..MAX_NONCE - 1]"

text \<open>
  A digest function to run the definitions on: all its digests start with three zeros,
  so that mining at difficulty 3 succeeds at nonce 0. It is injective. Its digests are
  longer than 64 characters; the code never looks at the length of a hash, and the
  SQLite table does not enforce the declared length of a string column.
\<close>

definition easy_digest :: digest where
  "easy_digest s = ''000'' @ s"

text \<open>The first request of the scenario in the specification, at some time of that day.\<close>

definition jan1 :: py_date where
  "jan1 = \<lparr> year = 2024, month = 1, day = 1 \<rparr>"

definition jan1_noon :: py_datetime where
  "jan1_noon = \<lparr> year = 2024, month = 1, day = 1, hour = 12, minute = 0, second = 0,
                 microsecond = 0 \<rparr>"

text \<open>
  The shape of a chain that appends build: block numbers 1, 2, ... in order, the
  sentinel of 64 zeros as previous hash of the first block, and the stored hash of
  its predecessor as previous hash of every later block.
\<close>

definition well_linked :: "study_session list \<Rightarrow> bool" where
  "well_linked chain \<longleftrightarrow>
     map block_number chain = [1..int (length chain)]
     \<and> (chain \<noteq> [] \<longrightarrow> prev_hash (hd chain) = replicate 64 (CHR ''0''))
     \<and> (\<forall>k. Suc k < length chain \<longrightarrow> prev_hash (chain ! Suc k) = hash (chain ! k))"

text \<open>
  The string that is hashed for a stored block, and a collision of the digest on two
  strings.
\<close>

definition block_string :: "study_session \<Rightarrow> string" where
  "block_string s =
     block_data (block_number s) (strftime (timestamp s)) (prev_hash s) (session_data s)
       (nonce s) (difficulty s)"

definition collision :: "digest \<Rightarrow> string \<Rightarrow> string \<Rightarrow> bool" where
  "collision sha256 x y \<longleftrightarrow> x \<noteq> y \<and> sha256 x = sha256 y"

text \<open>
  A block is sound when its stored hash is the digest of its own fields and meets its
  own difficulty. The payload of a block is what the request for it submitted.
\<close>

definition sound_block :: "digest \<Rightarrow> study_session \<Rightarrow> bool" where
  "sound_block sha256 s \<longleftrightarrow>
     calculated_hash sha256 s = hash s \<and> startswith (hash s) (zeros (difficulty s))"

definition payload :: "study_session \<Rightarrow> append_request" where
  "payload s = (timestamp s, date s, subject s, duration s, status s)"

text \<open>Reading a decimal numeral back, to show that \<open>str_nat\<close> loses nothing.\<close>

definition digit_val :: "char \<Rightarrow> nat" where
  "digit_val c = of_char c - 48"

definition nat_of_string :: "string \<Rightarrow> nat" where
  "nat_of_string s = foldl (\<lambda>a c. 10 * a + digit_val c) 0 s"

text \<open>
  Three appends of one user on an empty table, with the digest for which mining
  succeeds at once, and the chain they build.
\<close>

definition demo_requests :: "append_request list" where
  "demo_requests =
     [(jan1_noon, jan1, ''Math'', 60, ''pending''),
      (jan1_noon\<lparr>day := 2\<rparr>, jan1\<lparr>day := 2\<rparr>, ''Physics'', 90, ''pending''),
      (jan1_noon\<lparr>day := 3\<rparr>, jan1\<lparr>day := 3\<rparr>, ''Chemistry'', 45, ''completed'')]"

definition demo_chain :: "study_session list" where
  "demo_chain = query_chain (add_sessions easy_digest 1 demo_requests []) 1"

section \<open>The miner: what the loop returns\<close>

text \<open>The three ways through one round of the loop, and of the list of its attempts.\<close>

lemma mine_loop_hit:
  "n < MAX_NONCE \<Longrightarrow> startswith (calculate_hash H bn ts ph data n d) target \<Longrightarrow>
   mine_loop H bn ts ph data d target n = (calculate_hash H bn ts ph data n d, n)"
  by (simp add: mine_loop.simps [of H bn ts ph data d target n])

lemma mine_loop_miss:
  "n < MAX_NONCE \<Longrightarrow> \<not> startswith (calculate_hash H bn ts ph data n d) target \<Longrightarrow>
   mine_loop H bn ts ph data d target n = mine_loop H bn ts ph data d target (n + 1)"
  by (simp add: mine_loop.simps [of H bn ts ph data d target n])

lemma mine_loop_stop:
  "\<not> n < MAX_NONCE \<Longrightarrow>
   mine_loop H bn ts ph data d target n = (calculate_hash H bn ts ph data n d, n)"
  by (simp add: mine_loop.simps [of H bn ts ph data d target n])

lemma mine_attempts_hit:
  "n < MAX_NONCE \<Longrightarrow> startswith (calculate_hash H bn ts ph data n d) target \<Longrightarrow>
   mine_attempts H bn ts ph data d target n = [(calculate_hash H bn ts ph data n d, n)]"
  by (simp add: mine_attempts.simps [of H bn ts ph data d target n])

lemma mine_attempts_miss:
  "n < MAX_NONCE \<Longrightarrow> \<not> startswith (calculate_hash H bn ts ph data n d) target \<Longrightarrow>
   mine_attempts H bn ts ph data d target n
     = (calculate_hash H bn ts ph data n d, n) # mine_attempts H bn ts ph data d target (n + 1)"
  by (simp add: mine_attempts.simps [of H bn ts ph data d target n])

lemma mine_attempts_stop:
  "\<not> n < MAX_NONCE \<Longrightarrow> mine_attempts H bn ts ph data d target n = []"
  by (simp add: mine_attempts.simps [of H bn ts ph data d target n])

lemma mine_loop_consistent:
  "0 \<le> n \<Longrightarrow> n \<le> MAX_NONCE \<Longrightarrow> mine_loop H bn ts ph data d target n = (h, m)
   \<Longrightarrow> h = calculate_hash H bn ts ph data m d \<and> n \<le> m \<and> m \<le> MAX_NONCE"
proof (induction H bn ts ph data d target n rule: mine_loop.induct)
  case (1 H bn ts ph data d target n)
  show ?case
  proof (cases "n < MAX_NONCE")
    case True
    show ?thesis
    proof (cases "startswith (calculate_hash H bn ts ph data n d) target")
      case hit: True
      from "1.prems"(3) have "(calculate_hash H bn ts ph data n d, n) = (h, m)"
        by (auto simp: mine_loop_hit [OF True hit])
      with True show ?thesis by auto
    next
      case miss: False
      from "1.prems"(3) have "mine_loop H bn ts ph data d target (n + 1) = (h, m)"
        by (simp add: mine_loop_miss [OF True miss])
      with "1.IH" [OF True refl miss] True "1.prems"(1) show ?thesis by simp
    qed
  next
    case False
    from "1.prems"(3) have "(calculate_hash H bn ts ph data n d, n) = (h, m)"
      by (auto simp: mine_loop_stop [OF False])
    with False "1.prems"(2) show ?thesis by auto
  qed
qed

lemma mine_loop_exhausted:
  "n \<le> MAX_NONCE \<Longrightarrow>
   (\<And>k. n \<le> k \<Longrightarrow> k < MAX_NONCE \<Longrightarrow> \<not> startswith (calculate_hash H bn ts ph data k d) target)
   \<Longrightarrow> mine_loop H bn ts ph data d target n
       = (calculate_hash H bn ts ph data MAX_NONCE d, MAX_NONCE)"
proof (induction H bn ts ph data d target n rule: mine_loop.induct)
  case (1 H bn ts ph data d target n)
  show ?case
  proof (cases "n < MAX_NONCE")
    case True
    then have miss: "\<not> startswith (calculate_hash H bn ts ph data n d) target"
      using "1.prems"(2) [of n] by simp
    have "mine_loop H bn ts ph data d target (n + 1)
            = (calculate_hash H bn ts ph data MAX_NONCE d, MAX_NONCE)"
      using "1.IH" [OF True refl miss] True "1.prems"(2) by simp
    then show ?thesis by (simp add: mine_loop_miss [OF True miss])
  next
    case False
    with "1.prems"(1) have "n = MAX_NONCE" by simp
    with mine_loop_stop [OF False, of H bn ts ph data d target] show ?thesis by simp
  qed
qed

lemma mine_attempts_exhausted:
  "n \<le> MAX_NONCE \<Longrightarrow>
   (\<And>k. n \<le> k \<Longrightarrow> k < MAX_NONCE \<Longrightarrow> \<not> startswith (calculate_hash H bn ts ph data k d) target)
   \<Longrightarrow> mine_attempts H bn ts ph data d target n
       = map (\<lambda>k. (calculate_hash H bn ts ph data k d, k)) [n..MAX_NONCE - 1]"
proof (induction H bn ts ph data d target n rule: mine_attempts.induct)
  case (1 H bn ts ph data d target n)
  show ?case
  proof (cases "n < MAX_NONCE")
    case True
    then have miss: "\<not> startswith (calculate_hash H bn ts ph data n d) target"
      using "1.prems"(2) [of n] by simp
    have "mine_attempts H bn ts ph data d target (n + 1)
            = map (\<lambda>k. (calculate_hash H bn ts ph data k d, k)) [n + 1..MAX_NONCE - 1]"
      using "1.IH" [OF True refl miss] True "1.prems"(2) by simp
    moreover have "[n..MAX_NONCE - 1] = n # [n + 1..MAX_NONCE - 1]"
      using True by (simp add: upto_rec1)
    ultimately show ?thesis by (simp add: mine_attempts_miss [OF True miss])
  next
    case False
    then show ?thesis by (simp add: mine_attempts_stop [OF False])
  qed
qed

lemma mine_loop_attempts:
  "n \<le> MAX_NONCE \<Longrightarrow> mine_loop H bn ts ph data d target n = (h, m) \<Longrightarrow>
   (m < MAX_NONCE \<and> startswith h target \<and> mine_attempts H bn ts ph data d target n \<noteq> []
      \<and> last (mine_attempts H bn ts ph data d target n) = (h, m))
   \<or> (m = MAX_NONCE \<and> length (mine_attempts H bn ts ph data d target n) = nat (MAX_NONCE - n)
      \<and> (\<forall>a \<in> set (mine_attempts H bn ts ph data d target n). \<not> startswith (fst a) target))"
proof (induction H bn ts ph data d target n rule: mine_loop.induct)
  case (1 H bn ts ph data d target n)
  show ?case
  proof (cases "n < MAX_NONCE")
    case True
    show ?thesis
    proof (cases "startswith (calculate_hash H bn ts ph data n d) target")
      case hit: True
      from "1.prems"(2) have "(calculate_hash H bn ts ph data n d, n) = (h, m)"
        by (auto simp: mine_loop_hit [OF True hit])
      with True hit show ?thesis by (auto simp: mine_attempts_hit)
    next
      case miss: False
      from "1.prems"(2) have next_eq: "mine_loop H bn ts ph data d target (n + 1) = (h, m)"
        by (simp add: mine_loop_miss [OF True miss])
      from "1.IH" [OF True refl miss _ next_eq] True miss
      show ?thesis unfolding mine_attempts_miss [OF True miss]
        by (auto simp: nat_diff_distrib)
    qed
  next
    case False
    from "1.prems"(2) have "(calculate_hash H bn ts ph data n d, n) = (h, m)"
      by (auto simp: mine_loop_stop [OF False])
    with False "1.prems"(1) show ?thesis by (auto simp: mine_attempts_stop)
  qed
qed

text \<open>The target test counts leading zeros.\<close>

lemma startswith_replicate:
  "startswith h (replicate n c) \<longleftrightarrow> n \<le> length (takeWhile (\<lambda>x. x = c) h)"
proof (induction h arbitrary: n)
  case Nil
  then show ?case by (cases n) simp_all
next
  case (Cons x xs)
  then show ?case by (cases n) auto
qed

lemma startswith_zeros: "startswith h (zeros d) \<longleftrightarrow> d \<le> int (leading_zeros h)"
  by (auto simp: zeros_def leading_zeros_def startswith_replicate)

lemma MAX_NONCE_nonneg: "0 \<le> MAX_NONCE"
  by (simp add: MAX_NONCE_def)

lemma search_failed_all:
  assumes "n \<le> MAX_NONCE"
    and "list_all (\<lambda>a. \<not> startswith (fst a) target) (mine_attempts H bn ts ph data d target n)"
    and "n \<le> k" and "k < MAX_NONCE"
  shows "\<not> startswith (calculate_hash H bn ts ph data k d) target"
  using assms
proof (induction H bn ts ph data d target n rule: mine_attempts.induct)
  case (1 H bn ts ph data d target n)
  from "1.prems" have lt: "n < MAX_NONCE" by simp
  have miss: "\<not> startswith (calculate_hash H bn ts ph data n d) target"
  proof
    assume hit: "startswith (calculate_hash H bn ts ph data n d) target"
    with "1.prems"(2) show False by (simp add: mine_attempts_hit [OF lt hit])
  qed
  show ?case
  proof (cases "k = n")
    case True
    with miss show ?thesis by simp
  next
    case False
    from "1.prems"(2) have "list_all (\<lambda>a. \<not> startswith (fst a) target)
        (mine_attempts H bn ts ph data d target (n + 1))"
      by (simp add: mine_attempts_miss [OF lt miss])
    with "1.IH" [OF lt refl miss] lt False "1.prems"(3,4) show ?thesis by simp
  qed
qed

lemma all_fail_search_failed:
  assumes "\<And>k. 0 \<le> k \<Longrightarrow> k < MAX_NONCE \<Longrightarrow> \<not> startswith (calculate_hash H bn ts ph data k d) (zeros d)"
  shows "search_failed H bn ts ph data d"
  unfolding search_failed_def
  by (simp add: mine_attempts_exhausted [OF MAX_NONCE_nonneg assms] list_all_iff assms)

lemma search_failed_result:
  assumes "search_failed H bn ts ph data d"
  shows "mine_block H bn ts ph data d = (calculate_hash H bn ts ph data MAX_NONCE d, MAX_NONCE)"
    and "mine_attempts H bn ts ph data d (zeros d) 0
           = map (\<lambda>k. (calculate_hash H bn ts ph data k d, k)) [0..MAX_NONCE - 1]"
proof -
  have fail: "\<And>k. 0 \<le> k \<Longrightarrow> k < MAX_NONCE \<Longrightarrow>
      \<not> startswith (calculate_hash H bn ts ph data k d) (zeros d)"
    using search_failed_all [OF MAX_NONCE_nonneg assms [unfolded search_failed_def]] by simp
  show "mine_block H bn ts ph data d = (calculate_hash H bn ts ph data MAX_NONCE d, MAX_NONCE)"
    unfolding mine_block_def by (rule mine_loop_exhausted [OF MAX_NONCE_nonneg fail])
  show "mine_attempts H bn ts ph data d (zeros d) 0
           = map (\<lambda>k. (calculate_hash H bn ts ph data k d, k)) [0..MAX_NONCE - 1]"
    by (rule mine_attempts_exhausted [OF MAX_NONCE_nonneg fail])
qed

lemma last_map_upto:
  "i \<le> j \<Longrightarrow> last (map f [i..j]) = f j"
  by (simp add: upto_rec2 [of i j])

text \<open>
  Claim C10. For every input, the hash that \<open>mine_block\<close> returns is \<open>calculate_hash\<close>
  of the same block number, timestamp, previous hash, payload and difficulty with the
  nonce it returns, and that nonce lies between 0 and the ceiling 1,000,000, both
  included. This holds for every digest function and also when the search ran to the
  ceiling.
\<close>

theorem mine_block_self_consistent:
  "fst (mine_block H bn ts ph data d)
     = calculate_hash H bn ts ph data (snd (mine_block H bn ts ph data d)) d
   \<and> 0 \<le> snd (mine_block H bn ts ph data d)
   \<and> snd (mine_block H bn ts ph data d) \<le> 1000000"
proof -
  obtain h n where r: "mine_block H bn ts ph data d = (h, n)" by (cases "mine_block H bn ts ph data d")
  then have "mine_loop H bn ts ph data d (zeros d) 0 = (h, n)" by (simp add: mine_block_def)
  from mine_loop_consistent [OF _ MAX_NONCE_nonneg this] r show ?thesis
    by (simp add: MAX_NONCE_def)
qed

text \<open>
  Claim C4. For every input and every difficulty \<open>d\<close> (negative ones included, for
  which the target is empty), \<open>mine_block\<close> returns a hash that starts with at least
  \<open>d\<close> zero characters, or it returns nonce 1,000,000 after the loop made 1,000,000
  attempts. There is no third outcome.
\<close>

theorem mine_block_outcomes:
  "d \<le> int (leading_zeros (fst (mine_block H bn ts ph data d)))
   \<or> (snd (mine_block H bn ts ph data d) = 1000000
      \<and> length (mine_attempts H bn ts ph data d (zeros d) 0) = 1000000)"
proof -
  obtain h n where r: "mine_block H bn ts ph data d = (h, n)" by (cases "mine_block H bn ts ph data d")
  then have "mine_loop H bn ts ph data d (zeros d) 0 = (h, n)" by (simp add: mine_block_def)
  from mine_loop_attempts [OF MAX_NONCE_nonneg this] r show ?thesis
    by (auto simp: MAX_NONCE_def startswith_zeros)
qed

section \<open>The miner at the ceiling\<close>

text \<open>What \<open>mine_block\<close> returns is the last digest it computed, on every input.\<close>

lemma mine_computed_nonempty: "mine_computed H bn ts ph data d target n \<noteq> []"
  by (simp add: mine_computed.simps [of H bn ts ph data d target n] Let_def)

lemma mine_loop_last_computed:
  "mine_loop H bn ts ph data d target n = last (mine_computed H bn ts ph data d target n)"
proof (induction H bn ts ph data d target n rule: mine_loop.induct)
  case (1 H bn ts ph data d target n)
  show ?case
  proof (cases "n < MAX_NONCE")
    case True
    show ?thesis
    proof (cases "startswith (calculate_hash H bn ts ph data n d) target")
      case hit: True
      with True show ?thesis
        by (simp add: mine_loop_hit mine_computed.simps [of H bn ts ph data d target n])
    next
      case miss: False
      have "mine_computed H bn ts ph data d target n
              = (calculate_hash H bn ts ph data n d, n) # mine_computed H bn ts ph data d target (n + 1)"
        using True miss by (simp add: mine_computed.simps [of H bn ts ph data d target n])
      with "1.IH" [OF True refl miss] show ?thesis
        by (simp add: mine_loop_miss [OF True miss] mine_computed_nonempty)
    qed
  next
    case False
    then show ?thesis
      by (simp add: mine_loop_stop mine_computed.simps [of H bn ts ph data d target n])
  qed
qed

lemma mining_succeeds_iff:
  "mining_succeeds H bn ts ph data d \<longleftrightarrow>
     (\<exists>k. 0 \<le> k \<and> k < MAX_NONCE \<and> startswith (calculate_hash H bn ts ph data k d) (zeros d))"
  by (auto simp: mining_succeeds_def list_ex_iff)

lemma search_failed_iff: "search_failed H bn ts ph data d \<longleftrightarrow> \<not> mining_succeeds H bn ts ph data d"
proof
  assume f: "search_failed H bn ts ph data d"
  show "\<not> mining_succeeds H bn ts ph data d"
    unfolding mining_succeeds_iff
    using search_failed_all [OF MAX_NONCE_nonneg f [unfolded search_failed_def]] by blast
next
  assume "\<not> mining_succeeds H bn ts ph data d"
  then have "\<And>k. 0 \<le> k \<Longrightarrow> k < MAX_NONCE \<Longrightarrow>
      \<not> startswith (calculate_hash H bn ts ph data k d) (zeros d)"
    unfolding mining_succeeds_iff by blast
  then show "search_failed H bn ts ph data d" by (rule all_fail_search_failed)
qed

lemma mine_block_last_computed:
  "mine_block H bn ts ph data d = last (mine_computed H bn ts ph data d (zeros d) 0)"
  by (simp add: mine_block_def mine_loop_last_computed)

lemma mine_block_at_ceiling:
  assumes "\<not> mining_succeeds H bn ts ph data d"
  shows "mine_block H bn ts ph data d = (calculate_hash H bn ts ph data 1000000 d, 1000000)"
proof -
  from assms have "search_failed H bn ts ph data d" by (simp add: search_failed_iff)
  from search_failed_result(1) [OF this] show ?thesis by (simp add: MAX_NONCE_def)
qed

text \<open>
  A digest shorter than the target cannot start with it. A SHA-256 digest in
  hexadecimal has 64 characters, so at every difficulty above 64 the code runs to the
  ceiling, whatever the block.
\<close>

lemma startswith_length: "startswith s p \<Longrightarrow> length p \<le> length s"
  by (induction s p rule: startswith.induct) simp_all

lemma short_digest_never_hits:
  assumes "\<And>s. length (H s) < nat d"
  shows "\<not> mining_succeeds H bn ts ph data d"
proof -
  have "\<not> startswith (calculate_hash H bn ts ph data k d) (zeros d)" for k
    using startswith_length [of "calculate_hash H bn ts ph data k d" "zeros d"]
      assms [of "block_data bn ts ph data k d"]
    by (auto simp: calculate_hash_def zeros_def)
  then show ?thesis by (simp add: mining_succeeds_iff)
qed

text \<open>
  Claim C5. When \<open>mine_block\<close> reaches the ceiling without finding a compliant digest,
  that is when no nonce from 0 to 999,999 gives a digest that starts with the target,
  it does not fail: it returns the last hash it computed together with the nonce of
  that hash. This is the hash computed by the \<open>return\<close> after the loop, for nonce
  1,000,000, which may or may not be compliant.
\<close>

theorem mine_block_ceiling:
  assumes "\<not> mining_succeeds H bn ts ph data d"
  shows "mine_block H bn ts ph data d = last (mine_computed H bn ts ph data d (zeros d) 0)
    \<and> mine_block H bn ts ph data d = (calculate_hash H bn ts ph data 1000000 d, 1000000)"
  using mine_block_last_computed [of H bn ts ph data d] mine_block_at_ceiling [OF assms]
  by simp

text \<open>
  Witness of claim C5: the first block of a chain at difficulty 65. On this input the
  code runs to the ceiling with SHA-256 as well, by the lemma above: the target has 65
  characters and the digest 64.
\<close>

lemma easy_digest_misses_65:
  "\<not> mining_succeeds easy_digest 1 ts ph data 65"
proof -
  have one: "str_int 1 = ''1''"
    by (simp add: str_int_def str_nat.simps digit_char_def)
  have "\<not> startswith (calculate_hash easy_digest 1 ts ph data k 65) (zeros 65)" for k
    by (simp add: calculate_hash_def easy_digest_def block_data_def one zeros_def numeral_eq_Suc)
  then show ?thesis by (simp add: mining_succeeds_iff)
qed

theorem mine_block_ceiling_witness:
  "\<not> mining_succeeds easy_digest 1 ''2024-01-01 12:00:00'' (replicate 64 (CHR ''0'')) ''2024-01-01Math60pending'' 65
   \<and> mine_block easy_digest 1 ''2024-01-01 12:00:00'' (replicate 64 (CHR ''0'')) ''2024-01-01Math60pending'' 65
       = last (mine_computed easy_digest 1 ''2024-01-01 12:00:00'' (replicate 64 (CHR ''0''))
                 ''2024-01-01Math60pending'' 65 (zeros 65) 0)
   \<and> mine_block easy_digest 1 ''2024-01-01 12:00:00'' (replicate 64 (CHR ''0'')) ''2024-01-01Math60pending'' 65
       = (calculate_hash easy_digest 1 ''2024-01-01 12:00:00'' (replicate 64 (CHR ''0''))
            ''2024-01-01Math60pending'' 1000000 65, 1000000)"
  using mine_block_ceiling [OF easy_digest_misses_65] easy_digest_misses_65 by blast

section \<open>The verifiers: first failure, and all failures\<close>

lemma verify_loop_pass:
  "i < length ss \<Longrightarrow> check_block H ss i = None \<Longrightarrow> verify_loop H ss i = verify_loop H ss (Suc i)"
  by (simp add: verify_loop.simps [of H ss i])

lemma verify_loop_fail:
  "i < length ss \<Longrightarrow> check_block H ss i = Some m \<Longrightarrow> verify_loop H ss i = (False, m)"
  by (simp add: verify_loop.simps [of H ss i])

lemma verify_loop_end:
  "\<not> i < length ss \<Longrightarrow> verify_loop H ss i = (True, ''Blockchain is valid'')"
  by (simp add: verify_loop.simps [of H ss i])

lemma verify_loop_all_pass:
  "(\<And>j. i \<le> j \<Longrightarrow> j < length ss \<Longrightarrow> check_block H ss j = None)
   \<Longrightarrow> verify_loop H ss i = (True, ''Blockchain is valid'')"
proof (induction H ss i rule: verify_loop.induct)
  case (1 H ss i)
  show ?case
  proof (cases "i < length ss")
    case True
    have here: "check_block H ss i = None" using "1.prems" [of i] True by simp
    have "verify_loop H ss (Suc i) = (True, ''Blockchain is valid'')"
      using "1.IH" [OF True here] "1.prems" by simp
    then show ?thesis by (simp add: verify_loop_pass [OF True here])
  next
    case False
    then show ?thesis by (rule verify_loop_end)
  qed
qed

lemma verify_loop_first_failure:
  "i \<le> k \<Longrightarrow> k < length ss \<Longrightarrow> (\<And>j. i \<le> j \<Longrightarrow> j < k \<Longrightarrow> check_block H ss j = None)
   \<Longrightarrow> check_block H ss k = Some m \<Longrightarrow> verify_loop H ss i = (False, m)"
proof (induction H ss i rule: verify_loop.induct)
  case (1 H ss i)
  from "1.prems"(1,2) have lt: "i < length ss" by simp
  show ?case
  proof (cases "i = k")
    case True
    with "1.prems"(4) lt show ?thesis by (simp add: verify_loop_fail)
  next
    case False
    with "1.prems"(1) have "i < k" by simp
    then have here: "check_block H ss i = None" using "1.prems"(3) [of i] by simp
    have "verify_loop H ss (Suc i) = (False, m)"
      using "1.IH" [OF lt here] \<open>i < k\<close> "1.prems"(2,3,4) by simp
    then show ?thesis by (simp add: verify_loop_pass [OF lt here])
  qed
qed

lemma verify_loop_valid_iff:
  "fst (verify_loop H ss i) \<longleftrightarrow> (\<forall>j. i \<le> j \<and> j < length ss \<longrightarrow> check_block H ss j = None)"
proof (induction H ss i rule: verify_loop.induct)
  case (1 H ss i)
  show ?case
  proof (cases "i < length ss")
    case True
    show ?thesis
    proof (cases "check_block H ss i")
      case None
      have "(\<forall>j. i \<le> j \<and> j < length ss \<longrightarrow> check_block H ss j = None)
            \<longleftrightarrow> (\<forall>j. Suc i \<le> j \<and> j < length ss \<longrightarrow> check_block H ss j = None)"
      proof (intro iffI allI impI)
        fix j assume "\<forall>j. i \<le> j \<and> j < length ss \<longrightarrow> check_block H ss j = None"
          and "Suc i \<le> j \<and> j < length ss"
        then show "check_block H ss j = None" by simp
      next
        fix j assume all: "\<forall>j. Suc i \<le> j \<and> j < length ss \<longrightarrow> check_block H ss j = None"
          and j: "i \<le> j \<and> j < length ss"
        show "check_block H ss j = None"
        proof (cases "j = i")
          case True
          with None show ?thesis by simp
        next
          case False
          with j have "Suc i \<le> j" by simp
          with all j show ?thesis by simp
        qed
      qed
      with "1.IH" [OF True None] show ?thesis by (simp add: verify_loop_pass [OF True None])
    next
      case (Some m)
      with True show ?thesis by (auto simp: verify_loop_fail)
    qed
  next
    case False
    then have "\<forall>j. i \<le> j \<and> j < length ss \<longrightarrow> check_block H ss j = None" by auto
    with False show ?thesis by (simp add: verify_loop_end)
  qed
qed

lemma verify_blocks_valid_iff:
  "fst (verify_blocks H ss) \<longleftrightarrow> (\<forall>j < length ss. check_block H ss j = None)"
  by (simp add: verify_blocks_def verify_loop_valid_iff)

lemma collect_errors_concat:
  "collect_errors H ss i errs = errs @ concat (map (block_errors H ss) [i..<length ss])"
proof (induction H ss i errs rule: collect_errors.induct)
  case (1 H ss i errs)
  show ?case
  proof (cases "i < length ss")
    case True
    with "1.IH" [OF True] show ?thesis
      by (simp add: collect_errors.simps [of H ss i errs] upt_conv_Cons)
  next
    case False
    then show ?thesis by (simp add: collect_errors.simps [of H ss i errs])
  qed
qed

lemma utils_calculate_hash_eq: "utils_calculate_hash = calculate_hash"
  by (intro ext) (simp add: utils_calculate_hash_def calculate_hash_def block_data_def)

lemma block_errors_empty_iff: "block_errors H ss i = [] \<longleftrightarrow> check_block H ss i = None"
  by (simp add: block_errors_def check_block_def Let_def utils_calculate_hash_eq
      calculated_hash_def session_data_def)

lemma verify_user_blocks_errors:
  "snd (snd (verify_user_blocks H ss)) = concat (map (block_errors H ss) [0..<length ss])"
  by (simp add: verify_user_blocks_def Let_def collect_errors_concat)

text \<open>
  Claim C6. For every list of blocks, the fail-fast verifier returns valid exactly when
  the batch verifier reports an empty error list, and the two verdicts are equal; the
  same holds for the two functions on the table, which run the same query.
\<close>

theorem verifiers_agree:
  "fst (verify_blocks H sessions) = (snd (snd (verify_user_blocks H sessions)) = [])
   \<and> fst (verify_blocks H sessions) = fst (verify_user_blocks H sessions)
   \<and> fst (verify_chain H table uid) = (snd (snd (verify_user_chain H table uid)) = [])"
proof -
  have a: "fst (verify_blocks H ss) = (snd (snd (verify_user_blocks H ss)) = [])" for ss
    by (auto simp: verify_blocks_valid_iff verify_user_blocks_errors block_errors_empty_iff)
  have b: "fst (verify_user_blocks H ss) = (snd (snd (verify_user_blocks H ss)) = [])" for ss
    by (simp add: verify_user_blocks_def Let_def)
  show ?thesis using a b by (simp add: verify_chain_def verify_user_chain_def)
qed

section \<open>Deleting never deletes\<close>

text \<open>
  Claim C9. For every table, every session id and every caller, \<open>delete_session\<close>
  returns the table as it was, every block and every field included. Its only other
  effect is the flashed warning, which a caller who is logged in gets; a caller who is
  not logged in is redirected to the login page with no message.
\<close>

theorem delete_session_keeps_table:
  "fst (delete_session logged_in session_id table) = table
   \<and> fst (snd (delete_session logged_in session_id table))
       = (if logged_in = None then [] else [(delete_warning, ''error'')])"
  by (simp add: delete_session_def split: option.splits)

section \<open>A freshly appended block\<close>

lemma mine_block_hash:
  "fst (mine_block H bn ts ph data d) = calculate_hash H bn ts ph data (snd (mine_block H bn ts ph data d)) d"
proof -
  obtain h n where r: "mine_block H bn ts ph data d = (h, n)" by (cases "mine_block H bn ts ph data d")
  then have "mine_loop H bn ts ph data d (zeros d) 0 = (h, n)" by (simp add: mine_block_def)
  from mine_loop_consistent [OF _ MAX_NONCE_nonneg this] r show ?thesis by simp
qed

lemma mine_block_found:
  assumes "\<not> search_failed H bn ts ph data d"
  shows "startswith (fst (mine_block H bn ts ph data d)) (zeros d)"
proof -
  obtain h n where r: "mine_block H bn ts ph data d = (h, n)" by (cases "mine_block H bn ts ph data d")
  then have "mine_loop H bn ts ph data d (zeros d) 0 = (h, n)" by (simp add: mine_block_def)
  from mine_loop_attempts [OF MAX_NONCE_nonneg this] assms r show ?thesis
    by (auto simp: search_failed_def list_all_iff)
qed

lemma last_add_session:
  "last (add_session H now uid d subj dur st table)
     = (new_session H now uid d subj dur st (chain_tail table uid))\<lparr>id' := next_id table\<rparr>"
  by (simp add: add_session_def commit_def)

lemma new_session_hash_ok:
  "calculated_hash H ((new_session H now uid d subj dur st tail)\<lparr>id' := k\<rparr>)
     = hash ((new_session H now uid d subj dur st tail)\<lparr>id' := k\<rparr>)"
  by (simp add: calculated_hash_def new_session_def Let_def session_data_def mine_block_hash [symmetric])

lemma verify_single:
  "calculated_hash H b = hash b \<Longrightarrow>
   verify_blocks H [b] =
     (if startswith (hash b) (zeros (difficulty b)) then (True, ''Blockchain is valid'')
      else (False, ''Block '' @ str_int (block_number b) @ '' doesn't meet difficulty requirement''))"
  by (simp add: verify_blocks_def verify_loop.simps [of H "[b]" 0] verify_loop.simps [of H "[b]" "Suc 0"]
      check_block_def)

lemma fresh_block_verify:
  assumes "b = last (add_session H now uid d subj dur st table)"
  shows "calculated_hash H b = hash b"
    and "difficulty b = DIFFICULTY"
    and "verify_blocks H [b] =
     (if startswith (hash b) (zeros DIFFICULTY) then (True, ''Blockchain is valid'')
      else (False, ''Block '' @ str_int (block_number b) @ '' doesn't meet difficulty requirement''))"
proof -
  show h: "calculated_hash H b = hash b" unfolding assms last_add_session by (rule new_session_hash_ok)
  show d: "difficulty b = DIFFICULTY" unfolding assms last_add_session by (simp add: new_session_def Let_def)
  from verify_single [OF h] d show "verify_blocks H [b] =
     (if startswith (hash b) (zeros DIFFICULTY) then (True, ''Blockchain is valid'')
      else (False, ''Block '' @ str_int (block_number b) @ '' doesn't meet difficulty requirement''))"
    by simp
qed

lemma fresh_block_mined:
  assumes "b = last (add_session H now uid d subj dur st table)"
  shows "hash b = fst (mine_block H (block_number b) (strftime now) (prev_hash b) (session_data b) DIFFICULTY)"
  unfolding assms last_add_session by (simp add: new_session_def Let_def session_data_def)






lemma str_int_1: "str_int 1 = ''1''"
  by (simp add: str_int_def str_nat.simps digit_char_def)

lemma easy_digest_found: "d \<le> 3 \<Longrightarrow> \<not> search_failed easy_digest bn ts ph data d"
proof -
  assume d: "d \<le> 3"
  have "startswith (''000'' @ s) (replicate n (CHR ''0''))" if "n \<le> 3" for s n
  proof -
    from that have "n = 0 \<or> n = 1 \<or> n = 2 \<or> n = 3" by auto
    then show ?thesis by (auto simp: numeral_2_eq_2 numeral_3_eq_3)
  qed
  then have hit: "startswith (calculate_hash easy_digest bn ts ph data 0 d) (zeros d)"
    using d by (simp add: calculate_hash_def easy_digest_def zeros_def)
  have "0 < MAX_NONCE" by (simp add: MAX_NONCE_def)
  from mine_attempts_hit [OF this hit] hit show ?thesis by (simp add: search_failed_def)
qed


section \<open>Sequential appends\<close>

lemma sort_desc_snoc:
  fixes f :: "'a \<Rightarrow> int"
  assumes "\<forall>x \<in> set xs. f x < f y"
  shows "sort_key (\<lambda>s. - f s) (xs @ [y]) = y # sort_key (\<lambda>s. - f s) xs"
  using assms
proof (induction xs)
  case Nil
  then show ?case by simp
next
  case (Cons x xs)
  then have "sort_key (\<lambda>s. - f s) (xs @ [y]) = y # sort_key (\<lambda>s. - f s) xs" by simp
  moreover have "\<not> - f x \<le> - f y" using Cons.prems by simp
  ultimately show ?case by simp
qed

lemma block_number_nth:
  assumes "map block_number chain = [1..int (length chain)]" and "k < length chain"
  shows "block_number (chain ! k) = int k + 1"
proof -
  have "block_number (chain ! k) = map block_number chain ! k" using assms(2) by simp
  also have "\<dots> = [1..int (length chain)] ! k" by (simp only: assms(1))
  also have "\<dots> = 1 + int k" using assms(2) by (intro nth_upto) simp
  finally show ?thesis by simp
qed

lemma block_number_last:
  assumes "map block_number chain = [1..int (length chain)]" and "chain \<noteq> []"
  shows "block_number (last chain) = int (length chain)"
proof -
  from assms(2) obtain n where n: "length chain = Suc n" by (cases chain) auto
  then have "last chain = chain ! n" using assms(2) by (simp add: last_conv_nth)
  with block_number_nth [OF assms(1), of n] n show ?thesis by simp
qed

lemma query_last_numbered:
  assumes "map block_number (filter (\<lambda>s. user_id s = uid) table)
             = [1..int (length (filter (\<lambda>s. user_id s = uid) table))]"
  shows "query_last table uid =
     (if filter (\<lambda>s. user_id s = uid) table = [] then None
      else Some (last (filter (\<lambda>s. user_id s = uid) table)))"
proof (cases "filter (\<lambda>s. user_id s = uid) table = []")
  case True
  then show ?thesis by (simp add: query_last_def)
next
  case False
  define U where "U = filter (\<lambda>s. user_id s = uid) table"
  from False have ne: "U \<noteq> []" by (simp add: U_def)
  from assms have num: "map block_number U = [1..int (length U)]" by (simp add: U_def)
  have split: "U = butlast U @ [last U]" using ne by simp
  have top: "block_number (last U) = int (length U)"
    by (rule block_number_last [OF num ne])
  have "\<forall>x \<in> set (butlast U). block_number x < block_number (last U)"
  proof
    fix x assume "x \<in> set (butlast U)"
    then obtain k where k: "k < length (butlast U)" and x: "x = butlast U ! k"
      by (auto simp: in_set_conv_nth)
    from k have k': "k < length U" by simp
    from k x have "x = U ! k" by (simp add: nth_butlast)
    with block_number_nth [OF num k'] have "block_number x = int k + 1" by simp
    with top k show "block_number x < block_number (last U)" by simp
  qed
  from sort_desc_snoc [OF this] split
  have "sort_key (\<lambda>s. - block_number s) U
          = last U # sort_key (\<lambda>s. - block_number s) (butlast U)"
    by metis
  with False show ?thesis by (simp add: query_last_def U_def)
qed

lemma chain_tail_numbered:
  assumes "map block_number (filter (\<lambda>s. user_id s = uid) table)
             = [1..int (length (filter (\<lambda>s. user_id s = uid) table))]"
  shows "chain_tail table uid =
     (if filter (\<lambda>s. user_id s = uid) table = [] then (replicate 64 (CHR ''0''), 1)
      else (hash (last (filter (\<lambda>s. user_id s = uid) table)),
            int (length (filter (\<lambda>s. user_id s = uid) table)) + 1))"
proof (cases "filter (\<lambda>s. user_id s = uid) table = []")
  case True
  with query_last_numbered [OF assms] show ?thesis by (simp add: chain_tail_def)
next
  case False
  have "block_number (last (filter (\<lambda>s. user_id s = uid) table))
          = int (length (filter (\<lambda>s. user_id s = uid) table))"
    by (rule block_number_last [OF assms False])
  with query_last_numbered [OF assms] False show ?thesis by (simp add: chain_tail_def)
qed

lemma new_session_fields:
  "user_id (new_session H now uid d subj dur st tail) = uid"
  "block_number (new_session H now uid d subj dur st tail) = snd tail"
  "prev_hash (new_session H now uid d subj dur st tail) = fst tail"
  by (simp_all add: new_session_def Let_def)

lemma filter_add_session:
  "filter (\<lambda>s. user_id s = uid) (add_session H now uid d subj dur st table)
     = filter (\<lambda>s. user_id s = uid) table @ [last (add_session H now uid d subj dur st table)]"
  by (simp add: add_session_def commit_def new_session_fields)

lemma well_linked_snoc:
  assumes "well_linked U"
    and "block_number b = int (length U) + 1"
    and "prev_hash b = (if U = [] then replicate 64 (CHR ''0'') else hash (last U))"
  shows "well_linked (U @ [b])"
proof -
  from assms(1) have num: "map block_number U = [1..int (length U)]"
    and first: "U \<noteq> [] \<longrightarrow> prev_hash (hd U) = replicate 64 (CHR ''0'')"
    and link: "\<forall>k. Suc k < length U \<longrightarrow> prev_hash (U ! Suc k) = hash (U ! k)"
    by (simp_all add: well_linked_def)
  have "[1..int (length U) + 1] = [1..int (length U)] @ [int (length U) + 1]"
    using upto_rec2 [of 1 "int (length U) + 1"] by simp
  with num assms(2) have "map block_number (U @ [b]) = [1..int (length (U @ [b]))]"
    by (simp add: add.commute)
  moreover have "prev_hash (hd (U @ [b])) = replicate 64 (CHR ''0'')"
    using first assms(3) by (cases U) simp_all
  moreover have "\<forall>k. Suc k < length (U @ [b]) \<longrightarrow> prev_hash ((U @ [b]) ! Suc k) = hash ((U @ [b]) ! k)"
  proof (intro allI impI)
    fix k assume k: "Suc k < length (U @ [b])"
    show "prev_hash ((U @ [b]) ! Suc k) = hash ((U @ [b]) ! k)"
    proof (cases "Suc k < length U")
      case True
      with link show ?thesis by (simp add: nth_append)
    next
      case False
      with k have eq: "Suc k = length U" by simp
      then have "U \<noteq> []" and "length U - Suc 0 = k" by auto
      with eq assms(3) show ?thesis by (simp add: nth_append last_conv_nth)
    qed
  qed
  ultimately show ?thesis by (simp add: well_linked_def)
qed

lemma add_session_linked:
  assumes "well_linked (filter (\<lambda>s. user_id s = uid) table)"
  shows "well_linked (filter (\<lambda>s. user_id s = uid) (add_session H now uid d subj dur st table))"
proof -
  from assms have num: "map block_number (filter (\<lambda>s. user_id s = uid) table)
             = [1..int (length (filter (\<lambda>s. user_id s = uid) table))]"
    by (simp add: well_linked_def)
  show ?thesis
    unfolding filter_add_session
    by (rule well_linked_snoc [OF assms])
      (auto simp: last_add_session new_session_fields chain_tail_numbered [OF num])
qed

lemma add_sessions_linked:
  "well_linked (filter (\<lambda>s. user_id s = uid) table) \<Longrightarrow>
   well_linked (filter (\<lambda>s. user_id s = uid) (add_sessions H uid reqs table))
   \<and> length (filter (\<lambda>s. user_id s = uid) (add_sessions H uid reqs table))
       = length (filter (\<lambda>s. user_id s = uid) table) + length reqs"
proof (induction reqs arbitrary: table)
  case Nil
  then show ?case by simp
next
  case (Cons r reqs)
  obtain now d subj dur st where r: "r = (now, d, subj, dur, st)" by (cases r)
  from Cons.IH [OF add_session_linked [OF Cons.prems, of H now d subj dur st]]
  show ?case by (simp add: r filter_add_session)
qed

lemma query_chain_linked:
  "well_linked (filter (\<lambda>s. user_id s = uid) table) \<Longrightarrow>
   query_chain table uid = filter (\<lambda>s. user_id s = uid) table"
  unfolding query_chain_def
  by (rule sort_key_id_if_sorted) (simp add: well_linked_def)

lemma query_chain_empty:
  "query_chain table uid = [] \<longleftrightarrow> filter (\<lambda>s. user_id s = uid) table = []"
proof -
  have "length (query_chain table uid) = length (filter (\<lambda>s. user_id s = uid) table)"
    by (simp add: query_chain_def)
  then show ?thesis by (metis length_0_conv)
qed

text \<open>
  Claim C7. Starting from a table in which the user's chain is empty, appending \<open>n\<close>
  blocks for that user one after the other gives a chain of \<open>n\<close> blocks whose block
  numbers are 1 to \<open>n\<close> in order; block 1 has the sentinel of 64 zero characters as
  previous hash, and every later block has the stored hash of the block before it.
  Rows of other users may be in the table.
\<close>

theorem sequential_appends_chain:
  assumes "query_chain table uid = []"
    and "chain = query_chain (add_sessions H uid reqs table) uid"
  shows "length chain = length reqs
    \<and> map block_number chain = [1..int (length reqs)]
    \<and> (reqs \<noteq> [] \<longrightarrow> prev_hash (chain ! 0) = replicate 64 (CHR ''0''))
    \<and> (\<forall>k. 0 < k \<and> k < length reqs \<longrightarrow> prev_hash (chain ! k) = hash (chain ! (k - 1)))"
proof -
  from assms(1) have empty: "filter (\<lambda>s. user_id s = uid) table = []"
    by (simp add: query_chain_empty)
  then have "well_linked (filter (\<lambda>s. user_id s = uid) table)" by (simp add: well_linked_def)
  from add_sessions_linked [OF this, of H reqs] empty
  have wl: "well_linked (filter (\<lambda>s. user_id s = uid) (add_sessions H uid reqs table))"
    and len: "length (filter (\<lambda>s. user_id s = uid) (add_sessions H uid reqs table)) = length reqs"
    by simp_all
  from query_chain_linked [OF wl] assms(2)
  have chain: "chain = filter (\<lambda>s. user_id s = uid) (add_sessions H uid reqs table)" by simp
  from wl len have a: "length chain = length reqs"
    and b: "map block_number chain = [1..int (length reqs)]"
    and c: "chain \<noteq> [] \<longrightarrow> prev_hash (hd chain) = replicate 64 (CHR ''0'')"
    and d: "\<forall>k. Suc k < length chain \<longrightarrow> prev_hash (chain ! Suc k) = hash (chain ! k)"
    unfolding chain [symmetric] by (simp_all add: well_linked_def)
  have c': "reqs \<noteq> [] \<longrightarrow> prev_hash (chain ! 0) = replicate 64 (CHR ''0'')"
    using a c by (cases chain) auto
  have d': "\<forall>k. 0 < k \<and> k < length reqs \<longrightarrow> prev_hash (chain ! k) = hash (chain ! (k - 1))"
  proof (intro allI impI)
    fix k assume "0 < k \<and> k < length reqs"
    then obtain j where "k = Suc j" and "Suc j < length chain" using a by (cases k) auto
    with d show "prev_hash (chain ! k) = hash (chain ! (k - 1))" by simp
  qed
  from a b c' d' show ?thesis by blast
qed

section \<open>The hashed string determines each field\<close>

lemma digit_cases: "n < 10 \<Longrightarrow> n \<in> {0, 1, 2, 3, 4, 5, 6, 7, 8, 9 :: nat}"
  by auto

lemma digit_val_digit_char: "n < 10 \<Longrightarrow> digit_val (digit_char n) = n"
  using digit_cases [of n] by (auto simp: digit_val_def digit_char_def)

lemma digit_char_not_dash: "n < 10 \<Longrightarrow> CHR ''-'' \<noteq> digit_char n"
  using digit_cases [of n] by (auto simp: digit_char_def)

lemma str_nat_no_dash: "CHR ''-'' \<notin> set (str_nat n)"
proof (induction n rule: str_nat.induct)
  case (1 n)
  show ?case
  proof (cases "n < 10")
    case True
    then show ?thesis by (simp add: str_nat.simps [of n] digit_char_not_dash)
  next
    case False
    with "1.IH" show ?thesis by (simp add: str_nat.simps [of n] digit_char_not_dash)
  qed
qed

lemma nat_of_string_snoc: "nat_of_string (s @ [c]) = 10 * nat_of_string s + digit_val c"
  by (simp add: nat_of_string_def)

lemma nat_of_string_str_nat: "nat_of_string (str_nat n) = n"
proof (induction n rule: str_nat.induct)
  case (1 n)
  show ?case
  proof (cases "n < 10")
    case True
    then show ?thesis by (simp add: str_nat.simps [of n] nat_of_string_def digit_val_digit_char)
  next
    case False
    with "1.IH" show ?thesis
      by (simp add: str_nat.simps [of n] nat_of_string_snoc digit_val_digit_char)
  qed
qed

lemma str_nat_inject: "str_nat a = str_nat b \<Longrightarrow> a = b"
  by (metis nat_of_string_str_nat)

lemma str_int_inject: "str_int a = str_int b \<Longrightarrow> a = b"
proof -
  assume eq: "str_int a = str_int b"
  have dash: "CHR ''-'' # xs \<noteq> str_nat n" for xs n
    using str_nat_no_dash [of n] by (metis list.set_intros(1))
  show "a = b"
  proof (cases "a < 0"; cases "b < 0")
    assume "a < 0" "b < 0"
    with eq have "nat (- a) = nat (- b)" by (simp add: str_int_def str_nat_inject)
    with \<open>a < 0\<close> \<open>b < 0\<close> show ?thesis by simp
  next
    assume "a < 0" "\<not> b < 0"
    with eq dash show ?thesis by (simp add: str_int_def)
  next
    assume "\<not> a < 0" "b < 0"
    with eq dash [of _ "nat a"] show ?thesis by (simp add: str_int_def) metis
  next
    assume "\<not> a < 0" "\<not> b < 0"
    with eq have "nat a = nat b" by (simp add: str_int_def str_nat_inject)
    with \<open>\<not> a < 0\<close> \<open>\<not> b < 0\<close> show ?thesis by simp
  qed
qed

lemma nat_of_string_zeros: "nat_of_string (replicate k (CHR ''0'') @ s) = nat_of_string s"
proof -
  have "foldl (\<lambda>a c. 10 * a + digit_val c) 0 (replicate k (CHR ''0'')) = 0"
    by (induction k) (simp_all add: digit_val_def)
  then show ?thesis by (simp add: nat_of_string_def)
qed

lemma nat_of_string_zfill: "nat_of_string (zfill w (str_nat n)) = n"
  by (simp add: zfill_def nat_of_string_zeros nat_of_string_str_nat)

lemma zfill_no_dash: "CHR ''-'' \<notin> set (zfill w (str_nat n))"
  by (simp add: zfill_def str_nat_no_dash)

lemma split_at_dash:
  "CHR ''-'' \<notin> set a \<Longrightarrow> CHR ''-'' \<notin> set a' \<Longrightarrow> a @ CHR ''-'' # r = a' @ CHR ''-'' # r'
   \<Longrightarrow> a = a' \<and> r = r'"
proof (induction a arbitrary: a')
  case Nil
  then show ?case by (cases a') auto
next
  case (Cons x xs)
  then show ?case by (cases a') auto
qed

lemma date_str_inject:
  fixes d d' :: py_date
  assumes "date_str d = date_str d'"
  shows "d = d'"
proof -
  from assms have eq: "zfill 4 (str_nat (year d)) @ CHR ''-'' # (zfill 2 (str_nat (month d)) @ CHR ''-'' # zfill 2 (str_nat (day d)))
      = zfill 4 (str_nat (year d')) @ CHR ''-'' # (zfill 2 (str_nat (month d')) @ CHR ''-'' # zfill 2 (str_nat (day d')))"
    by (simp add: date_str_def)
  from split_at_dash [OF zfill_no_dash zfill_no_dash eq]
  have y: "zfill 4 (str_nat (year d)) = zfill 4 (str_nat (year d'))"
    and rest: "zfill 2 (str_nat (month d)) @ CHR ''-'' # zfill 2 (str_nat (day d))
      = zfill 2 (str_nat (month d')) @ CHR ''-'' # zfill 2 (str_nat (day d'))"
    by simp_all
  from split_at_dash [OF zfill_no_dash zfill_no_dash rest]
  have m: "zfill 2 (str_nat (month d)) = zfill 2 (str_nat (month d'))"
    and dd: "zfill 2 (str_nat (day d)) = zfill 2 (str_nat (day d'))"
    by simp_all
  from y have "year d = year d'" by (metis nat_of_string_zfill)
  moreover from m have "month d = month d'" by (metis nat_of_string_zfill)
  moreover from dd have "day d = day d'" by (metis nat_of_string_zfill)
  ultimately show ?thesis by simp
qed

lemma calculated_hash_block_string: "calculated_hash H s = H (block_string s)"
  by (simp add: calculated_hash_def calculate_hash_def block_string_def)

text \<open>A change of one payload field, or of the previous hash, changes the hashed string.\<close>

lemma block_string_payload:
  assumes "b' \<in> {b\<lparr>date := d\<rparr>, b\<lparr>subject := s\<rparr>, b\<lparr>duration := n\<rparr>, b\<lparr>status := st\<rparr>}"
    and "block_string b' = block_string b"
  shows "b' = b"
proof -
  from assms(1) consider "b' = b\<lparr>date := d\<rparr>" | "b' = b\<lparr>subject := s\<rparr>"
    | "b' = b\<lparr>duration := n\<rparr>" | "b' = b\<lparr>status := st\<rparr>" by auto
  then show ?thesis
  proof cases
    case 1
    with assms(2) have "date_str d = date_str (date b)"
      by (simp add: block_string_def block_data_def session_data_def)
    then have "d = date b" by (rule date_str_inject)
    with 1 show ?thesis by simp
  next
    case 2
    with assms(2) have "s = subject b"
      by (simp add: block_string_def block_data_def session_data_def)
    with 2 show ?thesis by simp
  next
    case 3
    with assms(2) have "str_int n = str_int (duration b)"
      by (simp add: block_string_def block_data_def session_data_def)
    then have "n = duration b" by (rule str_int_inject)
    with 3 show ?thesis by simp
  next
    case 4
    with assms(2) have "st = status b"
      by (simp add: block_string_def block_data_def session_data_def)
    with 4 show ?thesis by simp
  qed
qed

lemma block_string_prev_hash:
  "block_string (b\<lparr>prev_hash := v\<rparr>) = block_string b \<Longrightarrow> v = prev_hash b"
  by (simp add: block_string_def block_data_def session_data_def)

section \<open>Tampering with a stored block\<close>

lemma check_block_None_iff:
  "check_block H ss i = None \<longleftrightarrow>
     calculated_hash H (ss ! i) = hash (ss ! i)
     \<and> (0 < i \<longrightarrow> prev_hash (ss ! i) = hash (ss ! (i - 1)))
     \<and> startswith (hash (ss ! i)) (zeros (difficulty (ss ! i)))"
  by (auto simp: check_block_def Let_def)

lemma check_block_update_before:
  assumes "i < k"
  shows "check_block H (ss[k := b]) i = check_block H ss i"
proof -
  from assms have a: "ss[k := b] ! i = ss ! i" and b: "ss[k := b] ! (i - 1) = ss ! (i - 1)"
    by simp_all
  show ?thesis by (simp only: check_block_def a b)
qed

lemma check_block_invalid_hash:
  "calculated_hash H (ss ! i) \<noteq> hash (ss ! i) \<Longrightarrow>
   check_block H ss i = Some (''Block '' @ str_int (block_number (ss ! i)) @ '' has invalid hash'')"
  by (simp add: check_block_def)

lemma check_block_broken_link:
  "calculated_hash H (ss ! i) = hash (ss ! i) \<Longrightarrow> 0 < i \<Longrightarrow> prev_hash (ss ! i) \<noteq> hash (ss ! (i - 1)) \<Longrightarrow>
   check_block H ss i = Some (''Block '' @ str_int (block_number (ss ! i)) @ '' has broken chain link'')"
  by (simp add: check_block_def)

lemma valid_chain_checks:
  "fst (verify_blocks H ss) \<Longrightarrow> j < length ss \<Longrightarrow> check_block H ss j = None"
  by (simp add: verify_blocks_valid_iff)

lemma verify_blocks_first_failure:
  assumes "k < length ss" and "\<And>j. j < k \<Longrightarrow> check_block H ss j = None"
    and "check_block H ss k = Some m"
  shows "verify_blocks H ss = (False, m)"
proof -
  from assms(1) have "ss \<noteq> []" by auto
  then have "verify_blocks H ss = verify_loop H ss 0" by (simp add: verify_blocks_def)
  also have "\<dots> = (False, m)"
    by (rule verify_loop_first_failure [OF _ assms(1) _ assms(3)]) (simp_all add: assms(2))
  finally show ?thesis .
qed

text \<open>A block replaced at index \<open>k\<close>: the blocks before it are checked as before.\<close>

lemma tampered_block_verdict:
  assumes "fst (verify_blocks H chain)" and "k < length chain"
    and "check_block H (chain[k := b']) k = Some m"
  shows "verify_blocks H (chain[k := b']) = (False, m)"
    and "\<forall>i<k. check_block H (chain[k := b']) i = None"
proof -
  have before: "check_block H (chain[k := b']) j = None" if "j < k" for j
    using that assms(1,2) by (simp add: check_block_update_before valid_chain_checks)
  then show "\<forall>i<k. check_block H (chain[k := b']) i = None" by simp
  show "verify_blocks H (chain[k := b']) = (False, m)"
    by (rule verify_blocks_first_failure [OF _ before assms(3)]) (simp_all add: assms(2))
qed

text \<open>
  Claim C2. In a chain that verifies as valid, changing one payload field (date,
  subject, duration or status) of one block to a different value, with every other
  field of the block left as stored, makes the verifier return invalid with the
  message that this block has an invalid hash, and every earlier block still passes
  its three checks. The digest is assumed not to collide on the two strings hashed
  for the block, before and after the change.
\<close>

theorem payload_tamper_detected:
  assumes "fst (verify_blocks H chain)" and "k < length chain"
    and "b' \<in> {(chain ! k)\<lparr>date := d\<rparr>, (chain ! k)\<lparr>subject := s\<rparr>,
               (chain ! k)\<lparr>duration := n\<rparr>, (chain ! k)\<lparr>status := st\<rparr>}"
    and "b' \<noteq> chain ! k"
    and "\<not> collision H (block_string (chain ! k)) (block_string b')"
  shows "verify_blocks H (chain[k := b'])
           = (False, ''Block '' @ str_int (block_number (chain ! k)) @ '' has invalid hash'')
    \<and> (\<forall>i<k. check_block H (chain[k := b']) i = None)"
proof -
  have same: "hash b' = hash (chain ! k)" "block_number b' = block_number (chain ! k)"
    using assms(3) by auto
  have "block_string b' \<noteq> block_string (chain ! k)"
    using block_string_payload [OF assms(3)] assms(4) by blast
  with assms(5) have "H (block_string b') \<noteq> H (block_string (chain ! k))"
    by (auto simp: collision_def)
  moreover have "calculated_hash H (chain ! k) = hash (chain ! k)"
    using valid_chain_checks [OF assms(1,2)] by (simp add: check_block_None_iff)
  ultimately have "calculated_hash H b' \<noteq> hash b'"
    by (simp add: calculated_hash_block_string same)
  then have "calculated_hash H (chain[k := b'] ! k) \<noteq> hash (chain[k := b'] ! k)"
    using assms(2) by simp
  from check_block_invalid_hash [OF this]
  have "check_block H (chain[k := b']) k
          = Some (''Block '' @ str_int (block_number (chain ! k)) @ '' has invalid hash'')"
    using assms(2) by (simp add: same)
  from tampered_block_verdict [OF assms(1,2) this] show ?thesis by simp
qed

text \<open>The link-break test, on the fail-fast verifier and on the batch verifier.\<close>

lemma link_break_fail_fast:
  assumes "fst (verify_blocks H chain)" and "0 < k" and "k < length chain"
    and "v \<noteq> hash (chain ! (k - 1))" and "b' = (chain ! k)\<lparr>prev_hash := v\<rparr>"
  shows "verify_blocks H (chain[k := b']) =
      (False, ''Block '' @ str_int (block_number (chain ! k)) @
        (if collision H (block_string (chain ! k)) (block_string b') then '' has broken chain link''
         else '' has invalid hash''))"
    and "\<forall>i<k. check_block H (chain[k := b']) i = None"
proof -
  have ok: "check_block H chain k = None" by (rule valid_chain_checks [OF assms(1,3)])
  then have old: "calculated_hash H (chain ! k) = hash (chain ! k)"
    and link: "prev_hash (chain ! k) = hash (chain ! (k - 1))"
    using assms(2) by (simp_all add: check_block_None_iff)
  have differ: "block_string b' \<noteq> block_string (chain ! k)"
    using block_string_prev_hash [where b = "chain ! k" and v = v] assms(4,5) link by auto
  have nth: "chain[k := b'] ! k = b'" "chain[k := b'] ! (k - 1) = chain ! (k - 1)"
    "chain[k := b'] ! (k - Suc 0) = chain ! (k - Suc 0)"
    using assms(2,3) by simp_all
  have fields: "prev_hash b' = v" "hash b' = hash (chain ! k)"
    "block_number b' = block_number (chain ! k)"
    by (simp_all add: assms(5))
  have m: "check_block H (chain[k := b']) k = Some (''Block '' @ str_int (block_number (chain ! k)) @
        (if collision H (block_string (chain ! k)) (block_string b') then '' has broken chain link''
         else '' has invalid hash''))"
  proof (cases "collision H (block_string (chain ! k)) (block_string b')")
    case True
    then have "calculated_hash H b' = hash b'"
      using old by (simp add: collision_def calculated_hash_block_string fields)
    then have "calculated_hash H (chain[k := b'] ! k) = hash (chain[k := b'] ! k)" by (simp add: nth)
    from check_block_broken_link [OF this assms(2)] True assms(4) show ?thesis
      by (simp add: nth fields)
  next
    case False
    with differ have "H (block_string b') \<noteq> H (block_string (chain ! k))"
      by (auto simp: collision_def)
    then have "calculated_hash H b' \<noteq> hash b'"
      using old by (simp add: calculated_hash_block_string fields)
    then have "calculated_hash H (chain[k := b'] ! k) \<noteq> hash (chain[k := b'] ! k)" by (simp add: nth)
    from check_block_invalid_hash [OF this] False show ?thesis by (simp add: nth fields)
  qed
  from tampered_block_verdict [OF assms(1,3) m]
  show "verify_blocks H (chain[k := b']) =
      (False, ''Block '' @ str_int (block_number (chain ! k)) @
        (if collision H (block_string (chain ! k)) (block_string b') then '' has broken chain link''
         else '' has invalid hash''))"
    and "\<forall>i<k. check_block H (chain[k := b']) i = None" by simp_all
qed

lemma link_break_batch:
  assumes "0 < k" and "k < length chain"
    and "v \<noteq> hash (chain ! (k - 1))" and "b' = (chain ! k)\<lparr>prev_hash := v\<rparr>"
  shows "''Block '' @ str_int (block_number (chain ! k)) @ '': Broken chain link''
      \<in> set (snd (snd (verify_user_blocks H (chain[k := b']))))"
proof -
  have nth: "chain[k := b'] ! k = b'" "chain[k := b'] ! (k - 1) = chain ! (k - 1)"
    "chain[k := b'] ! (k - Suc 0) = chain ! (k - Suc 0)"
    using assms(1,2) by simp_all
  have fields: "prev_hash b' = v" "block_number b' = block_number (chain ! k)"
    by (simp_all add: assms(4))
  have "''Block '' @ str_int (block_number (chain ! k)) @ '': Broken chain link''
      \<in> set (block_errors H (chain[k := b']) k)"
    using assms(1,3) by (simp add: block_errors_def Let_def nth fields)
  moreover have "k \<in> set [0..<length (chain[k := b'])]" using assms(2) by simp
  ultimately show ?thesis unfolding verify_user_blocks_errors set_concat by (auto simp del: set_upt)
qed

text \<open>
  Claim C3, as amended. In a chain that verifies as valid, replacing the previous hash
  of a block after the first by a value other than the hash of the block before it,
  with every other field left as stored, has these effects. The batch verifier lists
  the broken chain link of that block among its errors. The fail-fast verifier returns
  invalid and names that block, with the invalid hash message, since its hash check
  comes first and the stored hash was computed from the old previous hash; it gives
  the broken chain link message only when the digest collides on the old and the new
  string. Every earlier block, the one just before included, still passes its three
  checks.
\<close>

theorem link_break_detected:
  assumes "fst (verify_blocks H chain)" and "0 < k" and "k < length chain"
    and "v \<noteq> hash (chain ! (k - 1))" and "b' = (chain ! k)\<lparr>prev_hash := v\<rparr>"
  shows "''Block '' @ str_int (block_number (chain ! k)) @ '': Broken chain link''
           \<in> set (snd (snd (verify_user_blocks H (chain[k := b']))))
    \<and> verify_blocks H (chain[k := b']) =
        (False, ''Block '' @ str_int (block_number (chain ! k)) @
          (if collision H (block_string (chain ! k)) (block_string b')
           then '' has broken chain link'' else '' has invalid hash''))
    \<and> (\<forall>i<k. check_block H (chain[k := b']) i = None)"
  using link_break_fail_fast [OF assms] link_break_batch [OF assms(2-5)] by blast

section \<open>The chain of three appends\<close>

lemma payload_new_session:
  "payload ((new_session H now uid d subj dur st tail)\<lparr>id' := k\<rparr>) = (now, d, subj, dur, st)"
  by (simp add: payload_def new_session_def Let_def)

lemma add_sessions_payload:
  "map payload (filter (\<lambda>s. user_id s = uid) (add_sessions H uid reqs table))
     = map payload (filter (\<lambda>s. user_id s = uid) table) @ reqs"
proof (induction reqs arbitrary: table)
  case Nil
  then show ?case by simp
next
  case (Cons r reqs)
  obtain now d subj dur st where r: "r = (now, d, subj, dur, st)" by (cases r)
  show ?case
    by (simp add: r Cons.IH filter_add_session last_add_session payload_new_session)
qed

lemma fresh_block_sound:
  assumes "\<And>bn ts ph data. \<not> search_failed H bn ts ph data DIFFICULTY"
  shows "sound_block H (last (add_session H now uid d subj dur st table))"
proof -
  define b where "b = last (add_session H now uid d subj dur st table)"
  from fresh_block_mined [OF b_def] mine_block_found [OF assms]
  have "startswith (hash b) (zeros DIFFICULTY)" by simp
  with fresh_block_verify(1,2) [OF b_def] show ?thesis
    unfolding b_def [symmetric] by (simp add: sound_block_def)
qed

lemma add_sessions_sound:
  assumes "\<And>bn ts ph data. \<not> search_failed H bn ts ph data DIFFICULTY"
  shows "list_all (sound_block H) (filter (\<lambda>s. user_id s = uid) table) \<Longrightarrow>
    list_all (sound_block H) (filter (\<lambda>s. user_id s = uid) (add_sessions H uid reqs table))"
proof (induction reqs arbitrary: table)
  case Nil
  then show ?case by simp
next
  case (Cons r reqs)
  obtain now d subj dur st where r: "r = (now, d, subj, dur, st)" by (cases r)
  have "list_all (sound_block H) (filter (\<lambda>s. user_id s = uid) (add_session H now uid d subj dur st table))"
    using Cons.prems fresh_block_sound [OF assms] by (simp add: filter_add_session)
  from Cons.IH [OF this] show ?case by (simp add: r)
qed

lemma linked_sound_valid:
  assumes "well_linked chain" and "list_all (sound_block H) chain"
  shows "fst (verify_blocks H chain)"
  unfolding verify_blocks_valid_iff
proof (intro allI impI)
  fix j assume j: "j < length chain"
  with assms(2) have "sound_block H (chain ! j)" by (simp add: list_all_length)
  moreover have "prev_hash (chain ! j) = hash (chain ! (j - 1))" if "0 < j"
  proof -
    from that obtain i where "j = Suc i" by (cases j) auto
    with assms(1) j show ?thesis by (simp add: well_linked_def)
  qed
  ultimately show "check_block H chain j = None"
    by (simp add: check_block_None_iff sound_block_def)
qed

text \<open>The chain that sequential appends build verifies, when no search of the miner fails.\<close>

lemma appended_chain_valid:
  assumes "\<And>bn ts ph data. \<not> search_failed H bn ts ph data DIFFICULTY"
    and "query_chain table uid = []"
  shows "fst (verify_chain H (add_sessions H uid reqs table) uid)"
proof -
  from assms(2) have empty: "filter (\<lambda>s. user_id s = uid) table = []"
    by (simp add: query_chain_empty)
  then have wl0: "well_linked (filter (\<lambda>s. user_id s = uid) table)" by (simp add: well_linked_def)
  from add_sessions_linked [OF wl0, of H reqs]
  have wl: "well_linked (filter (\<lambda>s. user_id s = uid) (add_sessions H uid reqs table))" by simp
  have "list_all (sound_block H) (filter (\<lambda>s. user_id s = uid) (add_sessions H uid reqs table))"
    by (rule add_sessions_sound [OF assms(1)]) (simp add: empty)
  from linked_sound_valid [OF wl this] show ?thesis
    by (simp add: verify_chain_def query_chain_linked [OF wl])
qed

lemma easy_digest_no_collision: "\<not> collision easy_digest x y"
  by (simp add: collision_def easy_digest_def)

lemma easy_digest_never_fails: "\<not> search_failed easy_digest bn ts ph data DIFFICULTY"
  by (rule easy_digest_found) (simp add: DIFFICULTY_def)

lemma demo_chain_rows:
  "demo_chain = filter (\<lambda>s. user_id s = 1) (add_sessions easy_digest 1 demo_requests [])"
  "well_linked demo_chain"
  "length demo_chain = 3"
proof -
  have wl0: "well_linked (filter (\<lambda>s. user_id s = 1) [])" by (simp add: well_linked_def)
  from add_sessions_linked [OF wl0, of easy_digest demo_requests]
  have wl: "well_linked (filter (\<lambda>s. user_id s = 1) (add_sessions easy_digest 1 demo_requests []))"
    and len: "length (filter (\<lambda>s. user_id s = 1) (add_sessions easy_digest 1 demo_requests [])) = 3"
    by (simp_all add: demo_requests_def)
  show rows: "demo_chain = filter (\<lambda>s. user_id s = 1) (add_sessions easy_digest 1 demo_requests [])"
    unfolding demo_chain_def by (rule query_chain_linked [OF wl])
  from wl len show "well_linked demo_chain" and "length demo_chain = 3" by (simp_all add: rows)
qed

lemma demo_chain_valid: "fst (verify_blocks easy_digest demo_chain)"
  using appended_chain_valid [of easy_digest "[]" 1 demo_requests]
  by (simp add: easy_digest_never_fails verify_chain_def demo_chain_def query_chain_def)

lemma demo_chain_payload: "map payload demo_chain = demo_requests"
  unfolding demo_chain_rows(1) by (simp add: add_sessions_payload)

lemma demo_chain_second:
  "block_number (demo_chain ! Suc 0) = 2" "status (demo_chain ! Suc 0) = ''pending''"
proof -
  have "map block_number demo_chain = [1..int (length demo_chain)]"
    using demo_chain_rows(2) by (simp add: well_linked_def)
  from block_number_nth [OF this, of "Suc 0"] show "block_number (demo_chain ! Suc 0) = 2"
    by (simp add: demo_chain_rows(3))
  have "payload (demo_chain ! Suc 0) = map payload demo_chain ! Suc 0"
    by (simp add: demo_chain_rows(3))
  then show "status (demo_chain ! Suc 0) = ''pending''"
    by (simp add: demo_chain_payload demo_requests_def payload_def)
qed

lemma str_int_2: "str_int 2 = ''2''"
  by (simp add: str_int_def str_nat.simps digit_char_def)

text \<open>
  Witness of claim C2, on the chain of three appends: the status of block 2 is set
  from pending to completed, as \<open>update_status\<close> does, and nothing else is changed.
\<close>

theorem payload_tamper_detected_witness:
  "fst (verify_blocks easy_digest demo_chain)
   \<and> (demo_chain ! 1)\<lparr>status := ''completed''\<rparr> \<noteq> demo_chain ! 1
   \<and> \<not> collision easy_digest (block_string (demo_chain ! 1))
         (block_string ((demo_chain ! 1)\<lparr>status := ''completed''\<rparr>))
   \<and> verify_blocks easy_digest (demo_chain[1 := (demo_chain ! 1)\<lparr>status := ''completed''\<rparr>])
       = (False, ''Block 2 has invalid hash'')
   \<and> check_block easy_digest (demo_chain[1 := (demo_chain ! 1)\<lparr>status := ''completed''\<rparr>]) 0 = None"
proof -
  have differ: "(demo_chain ! 1)\<lparr>status := ''completed''\<rparr> \<noteq> demo_chain ! 1"
  proof
    assume "(demo_chain ! 1)\<lparr>status := ''completed''\<rparr> = demo_chain ! 1"
    then have "status ((demo_chain ! 1)\<lparr>status := ''completed''\<rparr>) = status (demo_chain ! 1)" by simp
    then show False by (simp add: demo_chain_second(2))
  qed
  have len: "1 < length demo_chain" by (simp add: demo_chain_rows(3))
  have mem: "(demo_chain ! 1)\<lparr>status := ''completed''\<rparr>
      \<in> {(demo_chain ! 1)\<lparr>date := jan1\<rparr>, (demo_chain ! 1)\<lparr>subject := ''Physics''\<rparr>,
         (demo_chain ! 1)\<lparr>duration := 90\<rparr>, (demo_chain ! 1)\<lparr>status := ''completed''\<rparr>}"
    by simp
  from payload_tamper_detected [OF demo_chain_valid len mem differ easy_digest_no_collision]
  have "verify_blocks easy_digest (demo_chain[1 := (demo_chain ! 1)\<lparr>status := ''completed''\<rparr>])
       = (False, ''Block 2 has invalid hash'')"
    and "\<forall>i<1. check_block easy_digest (demo_chain[1 := (demo_chain ! 1)\<lparr>status := ''completed''\<rparr>]) i = None"
    by (simp_all add: demo_chain_second(1) str_int_2)
  with demo_chain_valid differ easy_digest_no_collision show ?thesis by simp
qed

lemma demo_first_hash: "replicate 64 (CHR ''f'') \<noteq> hash (demo_chain ! (1 - 1))"
proof -
  have "check_block easy_digest demo_chain 0 = None"
    by (rule valid_chain_checks [OF demo_chain_valid]) (simp add: demo_chain_rows(3))
  then have "hash (demo_chain ! 0) = easy_digest (block_string (demo_chain ! 0))"
    by (simp add: check_block_None_iff calculated_hash_block_string)
  then show ?thesis by (simp add: easy_digest_def numeral_eq_Suc)
qed

text \<open>
  Witness of claim C3 as amended, on the chain of three appends: the previous hash of
  block 2 is replaced by 64 characters \<open>f\<close>.
\<close>

theorem link_break_detected_witness:
  "fst (verify_blocks easy_digest demo_chain)
   \<and> replicate 64 (CHR ''f'') \<noteq> hash (demo_chain ! 0)
   \<and> ''Block 2: Broken chain link''
       \<in> set (snd (snd (verify_user_blocks easy_digest
                (demo_chain[1 := (demo_chain ! 1)\<lparr>prev_hash := replicate 64 (CHR ''f'')\<rparr>]))))
   \<and> verify_blocks easy_digest (demo_chain[1 := (demo_chain ! 1)\<lparr>prev_hash := replicate 64 (CHR ''f'')\<rparr>])
       = (False, ''Block 2 has invalid hash'')
   \<and> check_block easy_digest (demo_chain[1 := (demo_chain ! 1)\<lparr>prev_hash := replicate 64 (CHR ''f'')\<rparr>]) 0 = None"
proof -
  have "1 < length demo_chain" by (simp add: demo_chain_rows(3))
  from link_break_detected [OF demo_chain_valid _ this demo_first_hash refl]
  show ?thesis
    using demo_chain_valid demo_first_hash
    by (simp add: demo_chain_second(1) str_int_2 easy_digest_no_collision)
qed

text \<open>
  Counterexample to claim C3 as stated, which says that the verifier flags the block
  with the broken chain link diagnosis. On the same chain and the same replacement,
  the verdict of the fail-fast verifier is not that message.
\<close>

theorem link_break_reported_as_invalid_hash:
  "fst (verify_blocks easy_digest demo_chain)
   \<and> replicate 64 (CHR ''f'') \<noteq> hash (demo_chain ! 0)
   \<and> verify_blocks easy_digest (demo_chain[1 := (demo_chain ! 1)\<lparr>prev_hash := replicate 64 (CHR ''f'')\<rparr>])
       \<noteq> (False, ''Block 2 has broken chain link'')"
proof -
  have "1 < length demo_chain" by (simp add: demo_chain_rows(3))
  from link_break_fail_fast(1) [OF demo_chain_valid _ this demo_first_hash refl]
  have "verify_blocks easy_digest (demo_chain[1 := (demo_chain ! 1)\<lparr>prev_hash := replicate 64 (CHR ''f'')\<rparr>])
       = (False, ''Block 2 has invalid hash'')"
    by (simp add: demo_chain_second(1) str_int_2 easy_digest_no_collision)
  with demo_chain_valid demo_first_hash show ?thesis by simp
qed

text \<open>Witness of claim C7: the three appends, starting from the empty table.\<close>

theorem sequential_appends_chain_witness:
  "query_chain [] 1 = []
   \<and> map block_number demo_chain = [1, 2, 3]
   \<and> prev_hash (demo_chain ! 0) = replicate 64 (CHR ''0'')
   \<and> prev_hash (demo_chain ! 1) = hash (demo_chain ! 0)
   \<and> prev_hash (demo_chain ! 2) = hash (demo_chain ! 1)"
proof -
  have e: "query_chain [] 1 = []" by (simp add: query_chain_def)
  from sequential_appends_chain [OF e demo_chain_def]
  have a: "map block_number demo_chain = [1..3]"
    and b: "prev_hash (demo_chain ! 0) = replicate 64 (CHR ''0'')"
    and c: "\<forall>k. 0 < k \<and> k < 3 \<longrightarrow> prev_hash (demo_chain ! k) = hash (demo_chain ! (k - 1))"
    by (simp_all add: demo_requests_def)
  have "[1..3] = [1, 2, 3 :: int]" by (simp add: upto.simps)
  moreover from c [rule_format, of 1] have "prev_hash (demo_chain ! 1) = hash (demo_chain ! 0)"
    by simp
  moreover from c [rule_format, of 2] have "prev_hash (demo_chain ! 2) = hash (demo_chain ! 1)"
    by simp
  ultimately show ?thesis using e a b by simp
qed

section \<open>Two appends that read the same tail\<close>

text \<open>
  Claim C8 says that two concurrent appends of one user never get the same block
  number or the same previous hash. The handler takes no lock and the table has no
  uniqueness constraint. When two requests of one user both read the tail before
  either commits, both commits go through: the user has two more rows, with the same
  block number and the same previous hash.
\<close>

theorem racing_appends_share_tail:
  "filter (\<lambda>s. user_id s = uid)
     (commit (commit table (new_session H now1 uid d1 subj1 dur1 st1 (chain_tail table uid)))
        (new_session H now2 uid d2 subj2 dur2 st2 (chain_tail table uid)))
   = filter (\<lambda>s. user_id s = uid) table
     @ [(new_session H now1 uid d1 subj1 dur1 st1 (chain_tail table uid))\<lparr>id' := next_id table\<rparr>,
        (new_session H now2 uid d2 subj2 dur2 st2 (chain_tail table uid))
          \<lparr>id' := next_id (commit table (new_session H now1 uid d1 subj1 dur1 st1 (chain_tail table uid)))\<rparr>]
   \<and> block_number (new_session H now1 uid d1 subj1 dur1 st1 (chain_tail table uid))
       = block_number (new_session H now2 uid d2 subj2 dur2 st2 (chain_tail table uid))
   \<and> prev_hash (new_session H now1 uid d1 subj1 dur1 st1 (chain_tail table uid))
       = prev_hash (new_session H now2 uid d2 subj2 dur2 st2 (chain_tail table uid))"
  by (simp add: commit_def new_session_fields)

end
